theory Spec2Isabelle
  imports Complex_Main
begin

section \<open>Floating-point values with the "no value" marker\<close>

text \<open>
  The arrays of \<^verbatim>\<open>ctd/plotting.py\<close> hold IEEE doubles. A cell is the marker
  \<open>NaN\<close>, an infinity, or a finite number. Finite arithmetic is exact here (rounding and
  overflow are not modelled), the special values follow IEEE 754: \<open>NaN\<close> is absorbing,
  \<open>0 * inf\<close>, \<open>inf - inf\<close>, \<open>0 / 0\<close> and \<open>inf / inf\<close> are \<open>NaN\<close>, and every comparison
  with \<open>NaN\<close> is false. Zero carries no sign: every divisor of this program that can be
  zero is a difference of two equal numbers, which is \<open>+0\<close>.
\<close>

datatype fl = NaN | NInf | Fin real | PInf

datatype error = IndexError | ValueError

fun isnan :: "fl \<Rightarrow> bool" where
  "isnan NaN = True"
| "isnan _ = False"

fun fneg :: "fl \<Rightarrow> fl" where
  "fneg NaN = NaN"
| "fneg NInf = PInf"
| "fneg (Fin a) = Fin (- a)"
| "fneg PInf = NInf"

fun fadd :: "fl \<Rightarrow> fl \<Rightarrow> fl" where
  "fadd NaN _ = NaN"
| "fadd _ NaN = NaN"
| "fadd (Fin a) (Fin b) = Fin (a + b)"
| "fadd PInf NInf = NaN"
| "fadd NInf PInf = NaN"
| "fadd PInf _ = PInf"
| "fadd _ PInf = PInf"
| "fadd NInf _ = NInf"
| "fadd _ NInf = NInf"

definition fsub :: "fl \<Rightarrow> fl \<Rightarrow> fl" where
  "fsub a b = fadd a (fneg b)"

fun fmul :: "fl \<Rightarrow> fl \<Rightarrow> fl" where
  "fmul NaN _ = NaN"
| "fmul _ NaN = NaN"
| "fmul (Fin a) (Fin b) = Fin (a * b)"
| "fmul (Fin a) PInf = (if a = 0 then NaN else if 0 < a then PInf else NInf)"
| "fmul (Fin a) NInf = (if a = 0 then NaN else if 0 < a then NInf else PInf)"
| "fmul PInf (Fin b) = (if b = 0 then NaN else if 0 < b then PInf else NInf)"
| "fmul NInf (Fin b) = (if b = 0 then NaN else if 0 < b then NInf else PInf)"
| "fmul PInf PInf = PInf"
| "fmul NInf NInf = PInf"
| "fmul PInf NInf = NInf"
| "fmul NInf PInf = NInf"

fun fdiv :: "fl \<Rightarrow> fl \<Rightarrow> fl" where
  "fdiv NaN _ = NaN"
| "fdiv _ NaN = NaN"
| "fdiv (Fin a) (Fin b) =
     (if b \<noteq> 0 then Fin (a / b)
      else if a = 0 then NaN else if 0 < a then PInf else NInf)"
| "fdiv (Fin a) _ = Fin 0"
| "fdiv PInf (Fin b) = (if 0 \<le> b then PInf else NInf)"
| "fdiv NInf (Fin b) = (if 0 \<le> b then NInf else PInf)"
| "fdiv _ _ = NaN"

fun fless :: "fl \<Rightarrow> fl \<Rightarrow> bool" where
  "fless NaN _ = False"
| "fless _ NaN = False"
| "fless (Fin a) (Fin b) = (a < b)"
| "fless _ NInf = False"
| "fless NInf _ = True"
| "fless PInf _ = False"
| "fless _ PInf = True"

text \<open>\<^verbatim>\<open>np.max\<close> of two numbers: a \<open>NaN\<close> operand gives \<open>NaN\<close>.\<close>

definition fmax :: "fl \<Rightarrow> fl \<Rightarrow> fl" where
  "fmax a b = (if isnan a \<or> isnan b then NaN else if fless a b then b else a)"

text \<open>
  \<^verbatim>\<open>a.max()\<close> along an axis. The reduction has no identity: numpy raises
  \<^verbatim>\<open>ValueError\<close> on an axis of length zero.
\<close>

definition amax :: "fl list \<Rightarrow> error + fl" where
  "amax xs = (case xs of [] \<Rightarrow> Inl ValueError | x # rest \<Rightarrow> Inr (foldl fmax x rest))"

text \<open>A boolean used as a number: \<^verbatim>\<open>True\<close> is 1, \<^verbatim>\<open>False\<close> is 0.\<close>

definition of_bool_fl :: "bool \<Rightarrow> fl" where
  "of_bool_fl b = Fin (if b then 1 else 0)"

text \<open>Running a fallible function over a list stops at the first exception.\<close>

fun mapM :: "('a \<Rightarrow> error + 'b) \<Rightarrow> 'a list \<Rightarrow> error + 'b list" where
  "mapM f [] = Inr []"
| "mapM f (x # xs) =
     (case f x of Inl e \<Rightarrow> Inl e
      | Inr y \<Rightarrow> (case mapM f xs of Inl e \<Rightarrow> Inl e | Inr ys \<Rightarrow> Inr (y # ys)))"

section \<open>\<^verbatim>\<open>get_maxdepth\<close>\<close>

text \<open>
  The receiver is a pandas \<^verbatim>\<open>DataFrame\<close>: an index of depth levels and one column
  per station, each column as long as the index.
\<close>

record data_frame =
  df_index :: "fl list"
  df_columns :: "fl list list"

text \<open>\<^verbatim>\<open>Series.notnull\<close>: the "no value" marker is the only null of a float column.\<close>

definition notnull :: "fl \<Rightarrow> bool" where
  "notnull v = (\<not> isnan v)"

text \<open>
  \<^verbatim>\<open>valid_last_depth = self.apply(Series.notnull).values.T\<close> is the station-by-depth
  table of validity flags. \<^verbatim>\<open>self.index * valid_last_depth\<close> multiplies every row of
  it elementwise by the depth levels, and \<^verbatim>\<open>.max(axis=1)\<close> reduces every row along the
  depth levels; the reduction raises when there is no depth level.
\<close>

definition get_maxdepth :: "data_frame \<Rightarrow> error + fl list" where
  "get_maxdepth self =
     (let valid_last_depth = map (map notnull) (df_columns self)
      in if df_index self = [] then Inl ValueError
         else mapM (\<lambda>flags. amax (map2 (\<lambda>d b. fmul d (of_bool_fl b)) (df_index self) flags))
                valid_last_depth)"

section \<open>The interpolant of \<^verbatim>\<open>scipy.interpolate.interp1d\<close>\<close>

text \<open>
  \<^verbatim>\<open>interp1d\<close> is the library's class: it stores the knots, the kind, and what to do
  with a query outside \<open>[x[0], x[-1]]\<close>. A kind is represented by its evaluation rule;
  \<^verbatim>\<open>'linear'\<close>, the default, is \<open>call_linear\<close> below. The constructor rejects
  knot arrays of different lengths and fewer than two knots.
\<close>

record interpolant =
  ip_x :: "fl list"
  ip_y :: "fl list"
  ip_kind :: "fl list \<Rightarrow> fl list \<Rightarrow> fl \<Rightarrow> fl"
  ip_bounds_error :: bool
  ip_fill_value :: fl

definition interp1d ::
  "fl list \<Rightarrow> fl list \<Rightarrow> (fl list \<Rightarrow> fl list \<Rightarrow> fl \<Rightarrow> fl) \<Rightarrow> bool \<Rightarrow> fl
     \<Rightarrow> error + interpolant" where
  "interp1d x y kind bounds_error fill_value =
     (if length x \<noteq> length y then Inl ValueError
      else if length x < 2 then Inl ValueError
      else Inr \<lparr>ip_x = x, ip_y = y, ip_kind = kind,
                ip_bounds_error = bounds_error, ip_fill_value = fill_value\<rparr>)"

text \<open>
  \<^verbatim>\<open>np.searchsorted(x, x_new)\<close> on a sorted array: the number of leading entries
  below the query. numpy's order puts \<open>NaN\<close> after every number.
\<close>

definition np_lt :: "fl \<Rightarrow> fl \<Rightarrow> bool" where
  "np_lt a b = (fless a b \<or> (isnan b \<and> \<not> isnan a))"

definition searchsorted :: "fl list \<Rightarrow> fl \<Rightarrow> nat" where
  "searchsorted x x_new = length (takeWhile (\<lambda>a. np_lt a x_new) x)"

text \<open>
  The linear kind: the insertion index is clipped to \<open>[1, len(x) - 1]\<close>, and the line
  through the two neighbouring knots is evaluated at the query. In exact arithmetic the
  line returns the value of a knot at that knot; in doubles it does so up to rounding.
\<close>

definition call_linear :: "fl list \<Rightarrow> fl list \<Rightarrow> fl \<Rightarrow> fl" where
  "call_linear x y x_new =
     (let x_new_indices = min (max (searchsorted x x_new) 1) (length x - 1);
          lo = x_new_indices - 1;
          hi = x_new_indices;
          x_lo = x ! lo; x_hi = x ! hi;
          y_lo = y ! lo; y_hi = y ! hi;
          slope = fdiv (fsub y_hi y_lo) (fsub x_hi x_lo)
      in fadd (fmul slope (fsub x_new x_lo)) y_lo)"

text \<open>
  Calling the interpolant at one query: out of bounds it raises when
  \<^verbatim>\<open>bounds_error\<close> is set and returns \<^verbatim>\<open>fill_value\<close> otherwise. The bounds are the
  first and the last knot, which exist: the constructor admits no interpolant with fewer
  than two knots.
\<close>

definition interp_call :: "interpolant \<Rightarrow> fl \<Rightarrow> error + fl" where
  "interp_call f x_new =
     (let below_bounds = fless x_new (hd (ip_x f));
          above_bounds = fless (last (ip_x f)) x_new
      in if below_bounds \<or> above_bounds
         then (if ip_bounds_error f then Inl ValueError else Inr (ip_fill_value f))
         else Inr (ip_kind f (ip_x f) (ip_y f) x_new))"

section \<open>\<^verbatim>\<open>extrap1d\<close>\<close>

text \<open>
  Modelled from the spec: \<^verbatim>\<open>utilities.extrap1d\<close>, imported by
  \<^verbatim>\<open>plotting.py\<close>, is not among the sources. Section 4.1 of the specification gives
  its contract: outside the domain of the knots the value is
  \<open>y(x_boundary) + slope_at_boundary * (x - x_boundary)\<close>, the slope taken from the
  boundary knot and the knot one step inward; inside the domain it is the interpolant's
  own value.
\<close>

definition extrap1d :: "interpolant \<Rightarrow> fl \<Rightarrow> error + fl" where
  "extrap1d f x =
     (let xs = ip_x f; ys = ip_y f; n = length xs
      in if fless x (xs ! 0)
         then Inr (fadd (ys ! 0)
                (fmul (fdiv (fsub (ys ! 1) (ys ! 0)) (fsub (xs ! 1) (xs ! 0)))
                      (fsub x (xs ! 0))))
         else if fless (xs ! (n - 1)) x
         then Inr (fadd (ys ! (n - 1))
                (fmul (fdiv (fsub (ys ! (n - 1)) (ys ! (n - 2)))
                            (fsub (xs ! (n - 1)) (xs ! (n - 2))))
                      (fsub x (xs ! (n - 1)))))
         else interp_call f x)"

section \<open>\<^verbatim>\<open>extrap_sec\<close>\<close>

text \<open>
  Indexing an array by a boolean mask keeps the entries whose flag is set; a mask of
  another length is an \<^verbatim>\<open>IndexError\<close>.
\<close>

definition compress :: "'a list \<Rightarrow> bool list \<Rightarrow> 'a list" where
  "compress xs flags = map fst (filter snd (zip xs flags))"

definition bool_index :: "'a list \<Rightarrow> bool list \<Rightarrow> error + 'a list" where
  "bool_index xs flags =
     (if length xs \<noteq> length flags then Inl IndexError else Inr (compress xs flags))"

text \<open>\<^verbatim>\<open>np.repeat(y, k)\<close> repeats every entry of \<open>y\<close> \<open>k\<close> times.\<close>

definition np_repeat :: "'a list \<Rightarrow> nat \<Rightarrow> 'a list" where
  "np_repeat y k = concat (map (replicate k) y)"

text \<open>
  The body of both loops of \<^verbatim>\<open>extrap_sec\<close>, which differ only in the axis (\<^verbatim>\<open>dist\<close>
  for a row, \<^verbatim>\<open>depth\<close> for a column): a line without a valid entry is kept, a line with
  one valid entry is filled with it, any other line is replaced by the extrapolated
  interpolant through its valid entries, evaluated at every point of the axis.
\<close>

definition extrap_line :: "fl list \<Rightarrow> fl list \<Rightarrow> error + fl list" where
  "extrap_line axis row =
     (let mask = map (\<lambda>v. \<not> isnan v) row
      in if True \<in> set mask
         then (let y = compress row mask
               in if length y = 1 then Inr (np_repeat y (length mask))
                  else (case bool_index axis mask of
                          Inl e \<Rightarrow> Inl e
                        | Inr x \<Rightarrow>
                            (case interp1d x y call_linear True NaN of
                               Inl e \<Rightarrow> Inl e
                             | Inr f_i \<Rightarrow> mapM (extrap1d f_i) axis)))
         else Inr row)"

text \<open>
  \<^verbatim>\<open>data.T\<close>: the columns of a two-dimensional array, given as the list of its rows.
  The number of columns is read off the first row: a list of rows cannot carry the shape of
  an array without rows, and every statement below is about a grid with at least one row.
\<close>

definition transpose_grid :: "'a list list \<Rightarrow> 'a list list" where
  "transpose_grid data =
     (case data of [] \<Rightarrow> []
      | r # _ \<Rightarrow> map (\<lambda>j. map (\<lambda>row. row ! j) data) [0..<length r])"

definition new_data1 :: "fl list list \<Rightarrow> fl list \<Rightarrow> error + fl list list" where
  "new_data1 data dist' = mapM (extrap_line dist') data"

definition new_data2 :: "fl list list \<Rightarrow> fl list \<Rightarrow> error + fl list list" where
  "new_data2 data depth = mapM (extrap_line depth) (transpose_grid data)"

text \<open>
  \<^verbatim>\<open>np.array(a) * w1 + np.array(b).T * w2\<close>, elementwise: entry \<open>(i, j)\<close> of the sum
  takes entry \<open>(i, j)\<close> of \<open>a\<close> and entry \<open>(j, i)\<close> of \<open>b\<close>.
\<close>

definition blend :: "fl list list \<Rightarrow> fl \<Rightarrow> fl list list \<Rightarrow> fl \<Rightarrow> fl list list" where
  "blend a w1 b w2 =
     map (\<lambda>i. map (\<lambda>j. fadd (fmul (a ! i ! j) w1) (fmul (b ! j ! i) w2))
                [0..<length (a ! i)])
         [0..<length a]"

definition extrap_sec ::
  "fl list list \<Rightarrow> fl list \<Rightarrow> fl list \<Rightarrow> fl \<Rightarrow> fl \<Rightarrow> error + fl list list" where
  "extrap_sec data dist' depth w1 w2 =
     (case new_data1 data dist' of
        Inl e \<Rightarrow> Inl e
      | Inr rows \<Rightarrow>
          (case new_data2 data depth of
             Inl e \<Rightarrow> Inl e
           | Inr cols \<Rightarrow> Inr (blend rows w1 cols w2)))"

text \<open>
  The blend as the specification words it, for comparison with the code:
  \<open>result = w1 * column_pass + w2 * row_pass\<close>.
\<close>

definition spec_extrap_sec ::
  "fl list list \<Rightarrow> fl list \<Rightarrow> fl list \<Rightarrow> fl \<Rightarrow> fl \<Rightarrow> error + fl list list" where
  "spec_extrap_sec data dist' depth w1 w2 =
     (case new_data1 data dist' of
        Inl e \<Rightarrow> Inl e
      | Inr row_pass \<Rightarrow>
          (case new_data2 data depth of
             Inl e \<Rightarrow> Inl e
           | Inr column_pass \<Rightarrow>
               Inr (map (\<lambda>i. map (\<lambda>j. fadd (fmul w1 (column_pass ! j ! i))
                                          (fmul w2 (row_pass ! i ! j)))
                              [0..<length (row_pass ! i)])
                       [0..<length row_pass])))"

section \<open>\<^verbatim>\<open>gen_topomask\<close>\<close>

text \<open>\<^verbatim>\<open>np.cumsum\<close>, and \<^verbatim>\<open>a.mean()\<close>, which is \<open>NaN\<close> on an empty array.\<close>

fun cumsum_from :: "fl \<Rightarrow> fl list \<Rightarrow> fl list" where
  "cumsum_from acc [] = []"
| "cumsum_from acc (d # ds) = fadd acc d # cumsum_from (fadd acc d) ds"

definition cumsum :: "fl list \<Rightarrow> fl list" where
  "cumsum ds = cumsum_from (Fin 0) ds"

definition mean :: "fl list \<Rightarrow> fl" where
  "mean xs = fdiv (foldl fadd (Fin 0) xs) (Fin (real (length xs)))"


text \<open>
  The distance axis and the depths of \<^verbatim>\<open>gen_topomask\<close>. The two functions of the
  \<^verbatim>\<open>gsw\<close> library are parameters: \<open>distance lon lat\<close> is \<^verbatim>\<open>gsw.distance(lon, lat)[0]\<close>,
  the distances in metres between consecutive stations, and \<open>z_from_p p lat\<close> is the
  height of pressure \<open>p\<close> at latitude \<open>lat\<close>.
\<close>

definition topo_x :: "(fl list \<Rightarrow> fl list \<Rightarrow> fl list) \<Rightarrow> fl list \<Rightarrow> fl list \<Rightarrow> fl list" where
  "topo_x distance lon lat = Fin 0 # cumsum (map (\<lambda>d. fdiv d (Fin 1000)) (distance lon lat))"

definition topo_h :: "(fl \<Rightarrow> fl \<Rightarrow> fl) \<Rightarrow> fl list \<Rightarrow> fl list \<Rightarrow> fl list" where
  "topo_h z_from_p h lat = map (\<lambda>p. fneg (z_from_p p (mean lat))) h"

text \<open>
  \<^verbatim>\<open>Ih = interp1d(x, h, kind=kind, bounds_error=False, fill_value=h[-1])\<close>; the
  subscript \<^verbatim>\<open>h[-1]\<close> of an empty array is an \<^verbatim>\<open>IndexError\<close>.
\<close>

definition topo_Ih ::
  "(fl list \<Rightarrow> fl list \<Rightarrow> fl list) \<Rightarrow> (fl \<Rightarrow> fl \<Rightarrow> fl) \<Rightarrow> fl list \<Rightarrow> fl list \<Rightarrow> fl list
     \<Rightarrow> (fl list \<Rightarrow> fl list \<Rightarrow> fl \<Rightarrow> fl) \<Rightarrow> error + interpolant" where
  "topo_Ih distance z_from_p h lon lat kind =
     (let x = topo_x distance lon lat;
          h' = topo_h z_from_p h lat
      in if h' = [] then Inl IndexError
         else interp1d x h' kind False (last h'))"


section \<open>Well-formed inputs\<close>

text \<open>A grid of \<open>m\<close> depth levels by \<open>n\<close> stations, as the list of its rows.\<close>

definition grid :: "nat \<Rightarrow> nat \<Rightarrow> 'a list list \<Rightarrow> bool" where
  "grid m n data = (length data = m \<and> list_all (\<lambda>row. length row = n) data)"

fun is_fin :: "fl \<Rightarrow> bool" where
  "is_fin (Fin a) = True"
| "is_fin _ = False"

text \<open>A measurement is a finite number or the "no value" marker.\<close>

definition is_cell :: "fl \<Rightarrow> bool" where
  "is_cell v = (is_fin v \<or> isnan v)"


section \<open>Lemmas on running a function over a list\<close>

lemma mapM_length: "mapM f xs = Inr ys \<Longrightarrow> length ys = length xs"
  by (induction xs arbitrary: ys) (auto split: sum.splits)

lemma mapM_nth: "mapM f xs = Inr ys \<Longrightarrow> i < length xs \<Longrightarrow> f (xs ! i) = Inr (ys ! i)"
proof (induction xs arbitrary: ys i)
  case Nil
  then show ?case by simp
next
  case (Cons x xs)
  then show ?case by (cases i) (auto split: sum.splits)
qed

section \<open>Lemmas on the arithmetic and on one line of the grid\<close>

lemma fadd_NaN_right [simp]: "fadd a NaN = NaN"
  by (cases a) simp_all

lemma fmul_NaN_right [simp]: "fmul a NaN = NaN"
  by (cases a) simp_all

lemma is_fin_conv: "is_fin v \<longleftrightarrow> (\<exists>a. v = Fin a)"
  by (cases v) simp_all

lemma fmul_fin_zero: "is_fin d \<Longrightarrow> fmul d (Fin 0) = Fin 0"
  by (auto simp: is_fin_conv)

lemma mapM_total:
  assumes "\<And>x. x \<in> set xs \<Longrightarrow> \<exists>y. f x = Inr y"
  shows "\<exists>ys. mapM f xs = Inr ys"
  using assms
proof (induction xs)
  case Nil
  then show ?case by simp
next
  case (Cons a xs)
  then obtain y where "f a = Inr y" by auto
  moreover from Cons obtain ys where "mapM f xs = Inr ys" by auto
  ultimately show ?case by simp
qed

lemma grid_nth: "grid m n data \<Longrightarrow> i < m \<Longrightarrow> length (data ! i) = n"
  by (simp add: grid_def list_all_length)

lemma grid_length: "grid m n data \<Longrightarrow> length data = m"
  by (simp add: grid_def)

lemma compress_length: "length xs = length flags \<Longrightarrow> length (compress xs flags) = length (filter id flags)"
  unfolding compress_def
  by (induction xs flags rule: list_induct2) auto

lemma compress_self: "compress row (map (\<lambda>v. \<not> isnan v) row) = filter (\<lambda>v. \<not> isnan v) row"
  unfolding compress_def by (induction row) auto

lemma np_repeat_single: "length y = 1 \<Longrightarrow> np_repeat y k = replicate k (hd y)"
  by (cases y) (simp_all add: np_repeat_def)

lemma extrap1d_total:
  assumes "ip_x f \<noteq> []" "ip_bounds_error f"
  shows "\<exists>v. extrap1d f x = Inr v"
  using assms
  by (simp add: extrap1d_def interp_call_def Let_def hd_conv_nth last_conv_nth)

lemma extrap_line_no_valid:
  assumes "list_all isnan row"
  shows "extrap_line axis row = Inr row"
  using assms by (auto simp: extrap_line_def list_all_iff)

lemma extrap_line_one_valid:
  assumes "filter (\<lambda>v. \<not> isnan v) row = [v]"
  shows "extrap_line axis row = Inr (replicate (length row) v)"
proof -
  have "v \<in> set (filter (\<lambda>v. \<not> isnan v) row)" using assms by simp
  then have "True \<in> set (map (\<lambda>v. \<not> isnan v) row)" by force
  then show ?thesis
    using assms by (simp add: extrap_line_def compress_self np_repeat_def Let_def)
qed

lemma extrap_line_total:
  assumes "length axis = length row"
  shows "\<exists>out. extrap_line axis row = Inr out \<and> length out = length row"
proof (cases "True \<in> set (map (\<lambda>v. \<not> isnan v) row)")
  case False
  then show ?thesis by (simp add: extrap_line_def)
next
  case T: True
  let ?mask = "map (\<lambda>v. \<not> isnan v) row"
  let ?y = "compress row ?mask"
  show ?thesis
  proof (cases "length ?y = 1")
    case True
    then have "length (np_repeat ?y (length ?mask)) = length row"
      by (simp add: np_repeat_single)
    then show ?thesis using T True
      by (simp add: extrap_line_def Let_def)
  next
    case False
    have len: "length (compress axis ?mask) = length ?y"
      using assms by (simp add: compress_length)
    have "?y \<noteq> []" using T by (auto simp: compress_self filter_empty_conv)
    with False have ge2: "\<not> length ?y < 2" by (cases ?y) auto
    let ?f = "\<lparr>ip_x = compress axis ?mask, ip_y = ?y, ip_kind = call_linear,
                ip_bounds_error = True, ip_fill_value = NaN\<rparr>"
    have ip: "interp1d (compress axis ?mask) ?y call_linear True NaN = Inr ?f"
      using len ge2 by (simp add: interp1d_def)
    have "ip_x ?f \<noteq> []" using len ge2 by auto
    then have "\<exists>ys. mapM (extrap1d ?f) axis = Inr ys"
      by (intro mapM_total extrap1d_total) simp_all
    then obtain ys where ys: "mapM (extrap1d ?f) axis = Inr ys" ..
    then have "length ys = length row" using assms by (simp add: mapM_length)
    moreover have "extrap_line axis row = Inr ys"
      using T False ip ys assms by (simp add: extrap_line_def Let_def bool_index_def)
    ultimately show ?thesis by simp
  qed
qed

section \<open>Claims on \<^verbatim>\<open>get_maxdepth\<close>\<close>

text \<open>
  C2. For the station with values \<open>[1, 2, NaN, 4, NaN]\<close> at depth levels
  \<open>[10, 20, 30, 40, 50]\<close> the claim says that \<^verbatim>\<open>get_maxdepth\<close> returns 20. It does not.
\<close>

theorem get_maxdepth_example_not_20:
  "get_maxdepth \<lparr>df_index = [Fin 10, Fin 20, Fin 30, Fin 40, Fin 50],
       df_columns = [[Fin 1, Fin 2, NaN, Fin 4, NaN]]\<rparr> \<noteq> Inr [Fin 20]"
  by (simp add: get_maxdepth_def amax_def fmax_def notnull_def of_bool_fl_def)

text \<open>
  C2, amended. On that station \<^verbatim>\<open>get_maxdepth\<close> returns 40, the depth level of the
  deepest valid entry (the value 4): the products are \<open>[10, 20, 0, 40, 0]\<close>.
\<close>

theorem get_maxdepth_example_40:
  "get_maxdepth \<lparr>df_index = [Fin 10, Fin 20, Fin 30, Fin 40, Fin 50],
       df_columns = [[Fin 1, Fin 2, NaN, Fin 4, NaN]]\<rparr> = Inr [Fin 40]"
  by (simp add: get_maxdepth_def amax_def fmax_def notnull_def of_bool_fl_def)

section \<open>Lemmas on the two passes over the grid\<close>

lemma transpose_grid_nth:
  assumes "0 < m" "grid m n data" "j < n"
  shows "transpose_grid data ! j = map (\<lambda>row. row ! j) data"
proof -
  from assms obtain r rest where d: "data = r # rest" by (cases data) (auto simp: grid_def)
  with assms have "length r = n" by (simp add: grid_def)
  with d assms show ?thesis by (simp add: transpose_grid_def)
qed

lemma transpose_grid_grid:
  assumes "0 < m" "grid m n data"
  shows "grid n m (transpose_grid data)"
proof -
  from assms obtain r rest where d: "data = r # rest" by (cases data) (auto simp: grid_def)
  with assms have "length r = n" by (simp add: grid_def)
  with d assms show ?thesis by (auto simp: transpose_grid_def grid_def list_all_iff)
qed

lemma lines_total:
  assumes "grid m n lines" "length axis = n"
  shows "\<exists>out. mapM (extrap_line axis) lines = Inr out \<and> grid m n out
           \<and> (\<forall>i<m. extrap_line axis (lines ! i) = Inr (out ! i))"
proof -
  have "\<exists>out. mapM (extrap_line axis) lines = Inr out"
  proof (rule mapM_total)
    fix row assume "row \<in> set lines"
    with assms have "length axis = length row" by (simp add: grid_def list_all_iff)
    then show "\<exists>y. extrap_line axis row = Inr y" using extrap_line_total by blast
  qed
  then obtain out where out: "mapM (extrap_line axis) lines = Inr out" ..
  have len: "length out = m" using out assms by (simp add: mapM_length grid_def)
  have nth: "extrap_line axis (lines ! i) = Inr (out ! i)" if "i < m" for i
    using out that assms by (simp add: mapM_nth grid_def)
  have "length (out ! i) = n" if "i < m" for i
  proof -
    have "length axis = length (lines ! i)" using assms that by (simp add: grid_nth)
    then obtain o' where "extrap_line axis (lines ! i) = Inr o'" "length o' = length (lines ! i)"
      using extrap_line_total by blast
    with nth[OF that] assms that show ?thesis by (simp add: grid_nth)
  qed
  then have "grid m n out" using len by (simp add: grid_def list_all_length)
  with out nth show ?thesis by blast
qed

lemma blend_nth:
  assumes "i < length a" "j < length (a ! i)"
  shows "blend a w1 b w2 ! i ! j = fadd (fmul (a ! i ! j) w1) (fmul (b ! j ! i) w2)"
  using assms by (simp add: blend_def)

lemma blend_grid: "grid m n a \<Longrightarrow> grid m n (blend a w1 b w2)"
  by (simp add: grid_def blend_def list_all_length)

lemma extrap_sec_parts:
  assumes "0 < m" "grid m n data" "length dist' = n" "length depth = m"
  shows "\<exists>rows cols. new_data1 data dist' = Inr rows \<and> new_data2 data depth = Inr cols
           \<and> grid m n rows \<and> grid n m cols
           \<and> (\<forall>i<m. extrap_line dist' (data ! i) = Inr (rows ! i))
           \<and> (\<forall>j<n. extrap_line depth (map (\<lambda>row. row ! j) data) = Inr (cols ! j))
           \<and> extrap_sec data dist' depth w1 w2 = Inr (blend rows w1 cols w2)"
proof -
  from lines_total[OF assms(2,3)] obtain rows where
    r: "new_data1 data dist' = Inr rows" "grid m n rows"
       "\<forall>i<m. extrap_line dist' (data ! i) = Inr (rows ! i)"
    by (auto simp: new_data1_def)
  from lines_total[OF transpose_grid_grid[OF assms(1,2)] assms(4)] obtain cols where
    c: "new_data2 data depth = Inr cols" "grid n m cols"
       "\<forall>j<n. extrap_line depth (transpose_grid data ! j) = Inr (cols ! j)"
    by (auto simp: new_data2_def)
  from c(3) have "\<forall>j<n. extrap_line depth (map (\<lambda>row. row ! j) data) = Inr (cols ! j)"
    using transpose_grid_nth[OF assms(1,2)] by simp
  moreover have "extrap_sec data dist' depth w1 w2 = Inr (blend rows w1 cols w2)"
    using r(1) c(1) by (simp add: extrap_sec_def)
  ultimately show ?thesis using r c by blast
qed

section \<open>Claims on \<^verbatim>\<open>extrap_sec\<close>: the blend and the degenerate lines\<close>

text \<open>
  C1. The claim says that \<^verbatim>\<open>extrap_sec\<close> returns \<open>w1\<close> times the column pass plus
  \<open>w2\<close> times the row pass. With \<open>w1 = 1\<close> and \<open>w2 = 0\<close> on the grid below the code
  returns the row pass \<open>[[1, 1], [3, 4]]\<close>, the specification's formula the column pass
  \<open>[[1, 4], [3, 4]]\<close>.
\<close>

theorem extrap_sec_not_spec_blend:
  "extrap_sec [[Fin 1, NaN], [Fin 3, Fin 4]] [Fin 0, Fin 1] [Fin 0, Fin 1] (Fin 1) (Fin 0)
     \<noteq> spec_extrap_sec [[Fin 1, NaN], [Fin 3, Fin 4]] [Fin 0, Fin 1] [Fin 0, Fin 1] (Fin 1) (Fin 0)"
  by (simp add: extrap_sec_def spec_extrap_sec_def new_data1_def new_data2_def
      transpose_grid_def extrap_line_def compress_def bool_index_def np_repeat_def
      interp1d_def extrap1d_def interp_call_def call_linear_def searchsorted_def np_lt_def
      fsub_def blend_def)

text \<open>
  C1, amended. On an \<open>m\<close> by \<open>n\<close> grid with a distance axis of length \<open>n\<close> and a depth
  axis of length \<open>m\<close>, \<^verbatim>\<open>extrap_sec\<close> returns an \<open>m\<close> by \<open>n\<close> grid whose entry
  \<open>(i, j)\<close> is \<open>w1\<close> times entry \<open>j\<close> of row \<open>i\<close> fitted against the distance axis plus
  \<open>w2\<close> times entry \<open>i\<close> of column \<open>j\<close> fitted against the depth axis: \<open>w1\<close> weights the
  row pass and \<open>w2\<close> the column pass.
\<close>

theorem extrap_sec_blend:
  assumes "0 < m" "grid m n data" "length dist' = n" "length depth = m"
  shows "\<exists>rows cols out.
           extrap_sec data dist' depth w1 w2 = Inr out \<and> grid m n out
           \<and> (\<forall>i<m. extrap_line dist' (data ! i) = Inr (rows ! i))
           \<and> (\<forall>j<n. extrap_line depth (map (\<lambda>row. row ! j) data) = Inr (cols ! j))
           \<and> (\<forall>i<m. \<forall>j<n. out ! i ! j = fadd (fmul (rows ! i ! j) w1) (fmul (cols ! j ! i) w2))"
proof -
  from extrap_sec_parts[OF assms, of w1 w2] obtain rows cols where
    p: "grid m n rows"
       "\<forall>i<m. extrap_line dist' (data ! i) = Inr (rows ! i)"
       "\<forall>j<n. extrap_line depth (map (\<lambda>row. row ! j) data) = Inr (cols ! j)"
       "extrap_sec data dist' depth w1 w2 = Inr (blend rows w1 cols w2)"
    by blast
  have "blend rows w1 cols w2 ! i ! j = fadd (fmul (rows ! i ! j) w1) (fmul (cols ! j ! i) w2)"
    if "i < m" "j < n" for i j
    using that p(1) by (simp add: blend_nth grid_length grid_nth)
  with p blend_grid[OF p(1)] show ?thesis by blast
qed

theorem extrap_sec_blend_witness:
  "grid 2 2 [[Fin 1, NaN], [Fin 3, Fin 4]]
   \<and> extrap_sec [[Fin 1, NaN], [Fin 3, Fin 4]] [Fin 0, Fin 1] [Fin 0, Fin 1] (Fin 1) (Fin 0)
       = Inr [[Fin 1, Fin 1], [Fin 3, Fin 4]]"
proof -
  have g: "grid 2 2 [[Fin 1, NaN], [Fin 3, Fin 4]]" by (simp add: grid_def)
  have "\<exists>rows cols out.
           extrap_sec [[Fin 1, NaN], [Fin 3, Fin 4]] [Fin 0, Fin 1] [Fin 0, Fin 1] (Fin 1) (Fin 0) = Inr out
           \<and> grid 2 2 out
           \<and> (\<forall>i<2. extrap_line [Fin 0, Fin 1] ([[Fin 1, NaN], [Fin 3, Fin 4]] ! i) = Inr (rows ! i))
           \<and> (\<forall>j<2. extrap_line [Fin 0, Fin 1] (map (\<lambda>row. row ! j) [[Fin 1, NaN], [Fin 3, Fin 4]]) = Inr (cols ! j))
           \<and> (\<forall>i<2. \<forall>j<2. out ! i ! j = fadd (fmul (rows ! i ! j) (Fin 1)) (fmul (cols ! j ! i) (Fin 0)))"
    by (rule extrap_sec_blend[OF _ g]) simp_all
  then obtain rows cols out where
    o: "extrap_sec [[Fin 1, NaN], [Fin 3, Fin 4]] [Fin 0, Fin 1] [Fin 0, Fin 1] (Fin 1) (Fin 0) = Inr out"
    by blast
  moreover have "extrap_sec [[Fin 1, NaN], [Fin 3, Fin 4]] [Fin 0, Fin 1] [Fin 0, Fin 1] (Fin 1) (Fin 0)
       = Inr [[Fin 1, Fin 1], [Fin 3, Fin 4]]"
    by (simp add: extrap_sec_def new_data1_def new_data2_def
      transpose_grid_def extrap_line_def compress_def bool_index_def np_repeat_def
      interp1d_def extrap1d_def interp_call_def call_linear_def searchsorted_def np_lt_def
      fsub_def blend_def)
  ultimately show ?thesis using g by simp
qed

text \<open>
  C5. A row with exactly one valid value \<open>v\<close>, at any position, becomes the row whose
  every entry is \<open>v\<close> in the row pass, and a column with exactly one valid value becomes
  the constant column in the column pass; both passes return.
\<close>

theorem single_valid_broadcast:
  assumes "0 < m" "grid m n data" "length dist' = n" "length depth = m"
  shows "\<exists>rows cols.
           new_data1 data dist' = Inr rows \<and> new_data2 data depth = Inr cols
           \<and> (\<forall>i<m. \<forall>v. filter (\<lambda>c. \<not> isnan c) (data ! i) = [v]
                  \<longrightarrow> rows ! i = replicate n v)
           \<and> (\<forall>j<n. \<forall>v. filter (\<lambda>c. \<not> isnan c) (map (\<lambda>row. row ! j) data) = [v]
                  \<longrightarrow> cols ! j = replicate m v)"
proof -
  from extrap_sec_parts[OF assms, of "Fin 1" "Fin 0"] obtain rows cols where
    p: "new_data1 data dist' = Inr rows" "new_data2 data depth = Inr cols"
       "\<forall>i<m. extrap_line dist' (data ! i) = Inr (rows ! i)"
       "\<forall>j<n. extrap_line depth (map (\<lambda>row. row ! j) data) = Inr (cols ! j)"
    by blast
  have "rows ! i = replicate n v"
    if "i < m" "filter (\<lambda>c. \<not> isnan c) (data ! i) = [v]" for i v
    using p(3) that extrap_line_one_valid[OF that(2), of dist'] grid_nth[OF assms(2) that(1)]
    by simp
  moreover have "cols ! j = replicate m v"
    if "j < n" "filter (\<lambda>c. \<not> isnan c) (map (\<lambda>row. row ! j) data) = [v]" for j v
    using p(4) that extrap_line_one_valid[OF that(2), of depth] grid_length[OF assms(2)]
    by simp
  ultimately show ?thesis using p(1,2) by blast
qed

theorem single_valid_broadcast_witness:
  "grid 2 3 [[NaN, Fin 7, NaN], [Fin 1, Fin 2, NaN]]
   \<and> filter (\<lambda>c. \<not> isnan c) ([[NaN, Fin 7, NaN], [Fin 1, Fin 2, NaN]] ! 0) = [Fin 7]
   \<and> filter (\<lambda>c. \<not> isnan c) (map (\<lambda>row. row ! 0) [[NaN, Fin 7, NaN], [Fin 1, Fin 2, NaN]]) = [Fin 1]
   \<and> (\<exists>rows cols.
         new_data1 [[NaN, Fin 7, NaN], [Fin 1, Fin 2, NaN]] [Fin 0, Fin 1, Fin 2] = Inr rows
       \<and> new_data2 [[NaN, Fin 7, NaN], [Fin 1, Fin 2, NaN]] [Fin 10, Fin 20] = Inr cols
       \<and> rows ! 0 = [Fin 7, Fin 7, Fin 7] \<and> cols ! 0 = [Fin 1, Fin 1])"
proof -
  let ?d = "[[NaN, Fin 7, NaN], [Fin 1, Fin 2, NaN]]"
  have g: "grid 2 3 ?d" by (simp add: grid_def)
  have r: "filter (\<lambda>c. \<not> isnan c) (?d ! 0) = [Fin 7]" by simp
  have c: "filter (\<lambda>c. \<not> isnan c) (map (\<lambda>row. row ! 0) ?d) = [Fin 1]" by simp
  from single_valid_broadcast[OF _ g, of "[Fin 0, Fin 1, Fin 2]" "[Fin 10, Fin 20]"]
  obtain rows cols where
    p: "new_data1 ?d [Fin 0, Fin 1, Fin 2] = Inr rows" "new_data2 ?d [Fin 10, Fin 20] = Inr cols"
       "\<forall>i<2. \<forall>v. filter (\<lambda>c. \<not> isnan c) (?d ! i) = [v] \<longrightarrow> rows ! i = replicate 3 v"
       "\<forall>j<3. \<forall>v. filter (\<lambda>c. \<not> isnan c) (map (\<lambda>row. row ! j) ?d) = [v]
            \<longrightarrow> cols ! j = replicate 2 v"
    by auto
  from p(3) r have "rows ! 0 = replicate 3 (Fin 7)" by (metis zero_less_numeral)
  moreover from p(4) c have "cols ! 0 = replicate 2 (Fin 1)" by (metis zero_less_numeral)
  ultimately have "rows ! 0 = [Fin 7, Fin 7, Fin 7] \<and> cols ! 0 = [Fin 1, Fin 1]"
    by (simp add: numeral_2_eq_2 numeral_3_eq_3)
  with p(1,2) g r c show ?thesis by blast
qed

lemma list_all_isnan_nth: "list_all isnan xs \<Longrightarrow> i < length xs \<Longrightarrow> xs ! i = NaN"
  by (metis isnan.elims(2) list_all_length)

text \<open>
  C6. On a grid with at least one depth level and axes of matching lengths,
  \<^verbatim>\<open>extrap_sec\<close> returns a grid, it raises nothing. A row without a valid entry is left
  as it is by the row pass, a column without a valid entry by the column pass, and the
  "no value" markers of that row or column are in the returned grid.
\<close>

theorem no_valid_points_no_exception:
  assumes "0 < m" "grid m n data" "length dist' = n" "length depth = m"
  shows "\<exists>rows cols out.
           new_data1 data dist' = Inr rows \<and> new_data2 data depth = Inr cols
           \<and> extrap_sec data dist' depth w1 w2 = Inr out \<and> grid m n out
           \<and> (\<forall>i<m. list_all isnan (data ! i)
                  \<longrightarrow> rows ! i = data ! i \<and> list_all isnan (out ! i))
           \<and> (\<forall>j<n. list_all isnan (map (\<lambda>row. row ! j) data)
                  \<longrightarrow> cols ! j = map (\<lambda>row. row ! j) data
                      \<and> list_all isnan (map (\<lambda>row. row ! j) out))"
proof -
  from extrap_sec_parts[OF assms, of w1 w2] obtain rows cols where
    p: "new_data1 data dist' = Inr rows" "new_data2 data depth = Inr cols"
       "grid m n rows" "grid n m cols"
       "\<forall>i<m. extrap_line dist' (data ! i) = Inr (rows ! i)"
       "\<forall>j<n. extrap_line depth (map (\<lambda>row. row ! j) data) = Inr (cols ! j)"
       "extrap_sec data dist' depth w1 w2 = Inr (blend rows w1 cols w2)"
    by blast
  let ?out = "blend rows w1 cols w2"
  have g: "grid m n ?out" using p(3) by (rule blend_grid)
  have nth: "?out ! i ! j = fadd (fmul (rows ! i ! j) w1) (fmul (cols ! j ! i) w2)"
    if "i < m" "j < n" for i j
    using that p(3) by (simp add: blend_nth grid_length grid_nth)
  have row: "rows ! i = data ! i \<and> list_all isnan (?out ! i)"
    if "i < m" "list_all isnan (data ! i)" for i
  proof -
    have eq: "rows ! i = data ! i"
      using p(5) that extrap_line_no_valid[OF that(2), of dist'] by simp
    have "?out ! i ! j = NaN" if "j < n" for j
      using nth[OF \<open>i < m\<close> that] eq list_all_isnan_nth[OF \<open>list_all isnan (data ! i)\<close>]
        grid_nth[OF assms(2) \<open>i < m\<close>] that by simp
    then show ?thesis using eq grid_nth[OF g that(1)] by (simp add: list_all_length)
  qed
  have col: "cols ! j = map (\<lambda>row. row ! j) data \<and> list_all isnan (map (\<lambda>row. row ! j) ?out)"
    if "j < n" "list_all isnan (map (\<lambda>row. row ! j) data)" for j
  proof -
    have eq: "cols ! j = map (\<lambda>row. row ! j) data"
      using p(6) that extrap_line_no_valid[OF that(2), of depth] by simp
    have "?out ! i ! j = NaN" if "i < m" for i
    proof -
      have "cols ! j ! i = NaN"
        using eq list_all_isnan_nth[OF \<open>list_all isnan (map (\<lambda>row. row ! j) data)\<close>, of i]
          grid_length[OF assms(2)] that by simp
      then show ?thesis using nth[OF that \<open>j < n\<close>] by simp
    qed
    then show ?thesis using eq grid_length[OF g] by (simp add: list_all_length)
  qed
  from p(1,2,7) g row col show ?thesis by blast
qed

theorem no_valid_points_no_exception_witness:
  "grid 2 2 [[NaN, NaN], [Fin 3, Fin 4]]
   \<and> list_all isnan ([[NaN, NaN], [Fin 3, Fin 4]] ! 0)
   \<and> extrap_sec [[NaN, NaN], [Fin 3, Fin 4]] [Fin 0, Fin 1] [Fin 0, Fin 1] (Fin 1) (Fin 0)
       = Inr [[NaN, NaN], [Fin 3, Fin 4]]"
proof -
  let ?d = "[[NaN, NaN], [Fin 3, Fin 4]]"
  have g: "grid 2 2 ?d" by (simp add: grid_def)
  have h: "list_all isnan (?d ! 0)" by simp
  from no_valid_points_no_exception[OF _ g, of "[Fin 0, Fin 1]" "[Fin 0, Fin 1]" "Fin 1" "Fin 0"]
  have "\<exists>out. extrap_sec ?d [Fin 0, Fin 1] [Fin 0, Fin 1] (Fin 1) (Fin 0) = Inr out"
    by auto
  moreover have "extrap_sec ?d [Fin 0, Fin 1] [Fin 0, Fin 1] (Fin 1) (Fin 0)
       = Inr [[NaN, NaN], [Fin 3, Fin 4]]"
    by (simp add: extrap_sec_def new_data1_def new_data2_def
      transpose_grid_def extrap_line_def compress_def bool_index_def np_repeat_def
      interp1d_def extrap1d_def interp_call_def call_linear_def searchsorted_def np_lt_def
      fsub_def blend_def)
  ultimately show ?thesis using g h by simp
qed

text \<open>
  C10. Whatever the weights, zero included, the returned grid has the "no value" marker
  at every entry of a column without a valid entry, and at every entry of a row without
  a valid entry: the product of a weight and the marker is the marker.
\<close>

theorem no_valid_line_forces_nan:
  assumes "0 < m" "grid m n data" "length dist' = n" "length depth = m"
  shows "\<exists>out. extrap_sec data dist' depth w1 w2 = Inr out
           \<and> (\<forall>j<n. list_all isnan (map (\<lambda>row. row ! j) data) \<longrightarrow> (\<forall>i<m. out ! i ! j = NaN))
           \<and> (\<forall>i<m. list_all isnan (data ! i) \<longrightarrow> (\<forall>j<n. out ! i ! j = NaN))"
proof -
  from extrap_sec_parts[OF assms, of w1 w2] obtain rows cols where
    p: "grid m n rows"
       "\<forall>i<m. extrap_line dist' (data ! i) = Inr (rows ! i)"
       "\<forall>j<n. extrap_line depth (map (\<lambda>row. row ! j) data) = Inr (cols ! j)"
       "extrap_sec data dist' depth w1 w2 = Inr (blend rows w1 cols w2)"
    by blast
  let ?out = "blend rows w1 cols w2"
  have nth: "?out ! i ! j = fadd (fmul (rows ! i ! j) w1) (fmul (cols ! j ! i) w2)"
    if "i < m" "j < n" for i j
    using that p(1) by (simp add: blend_nth grid_length grid_nth)
  have col: "?out ! i ! j = NaN"
    if "j < n" "list_all isnan (map (\<lambda>row. row ! j) data)" "i < m" for i j
  proof -
    have "cols ! j = map (\<lambda>row. row ! j) data"
      using p(3) that extrap_line_no_valid[OF that(2), of depth] by simp
    then have "cols ! j ! i = NaN"
      using list_all_isnan_nth[OF that(2), of i] grid_length[OF assms(2)] that by simp
    then show ?thesis using nth[OF that(3,1)] by simp
  qed
  have row: "?out ! i ! j = NaN"
    if "i < m" "list_all isnan (data ! i)" "j < n" for i j
  proof -
    have "rows ! i = data ! i"
      using p(2) that extrap_line_no_valid[OF that(2), of dist'] by simp
    then have "rows ! i ! j = NaN"
      using list_all_isnan_nth[OF that(2), of j] grid_nth[OF assms(2) that(1)] that by simp
    then show ?thesis using nth[OF that(1,3)] by simp
  qed
  from p(4) col row show ?thesis by blast
qed

theorem no_valid_line_forces_nan_witness:
  "grid 2 2 [[Fin 1, NaN], [Fin 3, NaN]]
   \<and> list_all isnan (map (\<lambda>row. row ! 1) [[Fin 1, NaN], [Fin 3, NaN]])
   \<and> new_data1 [[Fin 1, NaN], [Fin 3, NaN]] [Fin 0, Fin 1] = Inr [[Fin 1, Fin 1], [Fin 3, Fin 3]]
   \<and> extrap_sec [[Fin 1, NaN], [Fin 3, NaN]] [Fin 0, Fin 1] [Fin 0, Fin 1] (Fin 1) (Fin 0)
       = Inr [[Fin 1, NaN], [Fin 3, NaN]]"
proof -
  let ?d = "[[Fin 1, NaN], [Fin 3, NaN]]"
  have g: "grid 2 2 ?d" by (simp add: grid_def)
  have h: "list_all isnan (map (\<lambda>row. row ! 1) ?d)" by simp
  from no_valid_line_forces_nan[OF _ g, of "[Fin 0, Fin 1]" "[Fin 0, Fin 1]" "Fin 1" "Fin 0"]
  have "\<exists>out. extrap_sec ?d [Fin 0, Fin 1] [Fin 0, Fin 1] (Fin 1) (Fin 0) = Inr out"
    by auto
  moreover have "extrap_sec ?d [Fin 0, Fin 1] [Fin 0, Fin 1] (Fin 1) (Fin 0)
       = Inr [[Fin 1, NaN], [Fin 3, NaN]]"
    by (simp add: extrap_sec_def new_data1_def new_data2_def
      transpose_grid_def extrap_line_def compress_def bool_index_def np_repeat_def
      interp1d_def extrap1d_def interp_call_def call_linear_def searchsorted_def np_lt_def
      fsub_def blend_def)
  moreover have "new_data1 ?d [Fin 0, Fin 1] = Inr [[Fin 1, Fin 1], [Fin 3, Fin 3]]"
    by (simp add: new_data1_def extrap_line_def compress_def np_repeat_def)
  ultimately show ?thesis using g h by simp
qed

section \<open>Claims on \<^verbatim>\<open>get_maxdepth\<close>: a station without a valid value\<close>

lemma foldl_fmax_zero: "list_all (\<lambda>v. v = Fin 0) xs \<Longrightarrow> foldl fmax (Fin 0) xs = Fin 0"
  by (induction xs) (simp_all add: fmax_def)

lemma amax_zeros:
  assumes "xs \<noteq> []" "list_all (\<lambda>v. v = Fin 0) xs"
  shows "amax xs = Inr (Fin 0)"
  using assms by (cases xs) (simp_all add: amax_def foldl_fmax_zero)

lemma amax_total: "xs \<noteq> [] \<Longrightarrow> \<exists>v. amax xs = Inr v"
  by (cases xs) (simp_all add: amax_def)

text \<open>
  C3. The claim says that a station whose variable has no valid value gets an undefined
  (\<open>NaN\<close>) depth, not zero. On two finite depth levels the code returns zero.
\<close>

theorem get_maxdepth_no_valid_example:
  "get_maxdepth \<lparr>df_index = [Fin 10, Fin 20], df_columns = [[NaN, NaN]]\<rparr> = Inr [Fin 0]"
  by (simp add: get_maxdepth_def amax_def fmax_def notnull_def of_bool_fl_def)

text \<open>
  C3, amended. With at least one depth level, all depth levels finite and every column
  as long as the index, \<^verbatim>\<open>get_maxdepth\<close> returns, and the depth of a station whose
  variable has no valid value is zero: every depth level is multiplied by a false flag.
\<close>

theorem get_maxdepth_no_valid_zero:
  assumes "df_index self \<noteq> []" "list_all is_fin (df_index self)"
    and "list_all (\<lambda>col. length col = length (df_index self)) (df_columns self)"
    and "j < length (df_columns self)" "list_all isnan (df_columns self ! j)"
  shows "\<exists>out. get_maxdepth self = Inr out \<and> length out = length (df_columns self)
           \<and> out ! j = Fin 0"
proof -
  let ?f = "\<lambda>flags. amax (map2 (\<lambda>d b. fmul d (of_bool_fl b)) (df_index self) flags)"
  let ?v = "map (map notnull) (df_columns self)"
  have "\<exists>out. mapM ?f ?v = Inr out"
  proof (rule mapM_total)
    fix flags assume "flags \<in> set ?v"
    then have "length flags = length (df_index self)"
      using assms(3) by (auto simp: list_all_iff)
    then have "map2 (\<lambda>d b. fmul d (of_bool_fl b)) (df_index self) flags \<noteq> []"
      using assms(1) by (cases "df_index self"; cases flags) simp_all
    then show "\<exists>y. ?f flags = Inr y" by (rule amax_total)
  qed
  then obtain out where out: "mapM ?f ?v = Inr out" ..
  then have g: "get_maxdepth self = Inr out" using assms(1) by (simp add: get_maxdepth_def)
  have len: "length out = length (df_columns self)" using out by (simp add: mapM_length)
  let ?col = "df_columns self ! j"
  have lc: "length ?col = length (df_index self)"
    using assms(3,4) by (simp add: list_all_length)
  define prods where "prods = map2 (\<lambda>d b. fmul d (of_bool_fl b)) (df_index self) (map notnull ?col)"
  have lp: "length prods = length (df_index self)" using lc by (simp add: prods_def)
  have "prods ! k = Fin 0" if "k < length prods" for k
  proof -
    have "?col ! k = NaN" using assms(5) that lp lc by (simp add: list_all_isnan_nth)
    moreover have "is_fin (df_index self ! k)" using assms(2) that lp by (simp add: list_all_length)
    ultimately show ?thesis using that lp lc
      by (simp add: prods_def notnull_def of_bool_fl_def fmul_fin_zero)
  qed
  then have "list_all (\<lambda>v. v = Fin 0) prods" by (simp add: list_all_length)
  moreover have "prods \<noteq> []" using lp assms(1) by auto
  ultimately have "amax prods = Inr (Fin 0)" by (simp add: amax_zeros)
  moreover have "amax prods = Inr (out ! j)"
    using mapM_nth[OF out, of j] assms(4) by (simp add: prods_def)
  ultimately have "out ! j = Fin 0" by simp
  with g len show ?thesis by blast
qed

theorem get_maxdepth_no_valid_zero_witness:
  "list_all is_fin [Fin 10, Fin 20] \<and> list_all isnan ([[Fin 1, NaN], [NaN, NaN]] ! 1)
   \<and> get_maxdepth \<lparr>df_index = [Fin 10, Fin 20], df_columns = [[Fin 1, NaN], [NaN, NaN]]\<rparr>
       = Inr [Fin 10, Fin 0]"
proof -
  let ?s = "\<lparr>df_index = [Fin 10, Fin 20], df_columns = [[Fin 1, NaN], [NaN, NaN]]\<rparr>"
  from get_maxdepth_no_valid_zero[of ?s 1]
  have "\<exists>out. get_maxdepth ?s = Inr out" by auto
  moreover have "get_maxdepth ?s = Inr [Fin 10, Fin 0]"
    by (simp add: get_maxdepth_def amax_def fmax_def notnull_def of_bool_fl_def)
  ultimately show ?thesis by simp
qed

section \<open>Claims on \<^verbatim>\<open>gen_topomask\<close>\<close>

text \<open>
  C7. Whenever the seafloor interpolant \<^verbatim>\<open>Ih\<close> of \<^verbatim>\<open>gen_topomask\<close> is fitted, a
  query strictly beyond the cumulative distance of the last station returns the computed
  depth of the last station, whatever the query and the kind of interpolation.
\<close>

theorem topo_Ih_flat_beyond_last:
  assumes "topo_Ih distance z_from_p h lon lat kind = Inr Ih"
    and "fless (last (topo_x distance lon lat)) q"
  shows "interp_call Ih q = Inr (last (topo_h z_from_p h lat))"
  using assms
  by (auto simp: topo_Ih_def interp1d_def interp_call_def Let_def split: if_splits)

theorem topo_Ih_flat_beyond_last_witness:
  "topo_Ih (\<lambda>lon lat. [Fin 2500]) (\<lambda>p lat. fneg p) [Fin 100, Fin 200]
       [Fin 0, Fin 1] [Fin 0, Fin 0] call_linear
     = Inr \<lparr>ip_x = [Fin 0, Fin (5 / 2)], ip_y = [Fin 100, Fin 200], ip_kind = call_linear,
            ip_bounds_error = False, ip_fill_value = Fin 200\<rparr>
   \<and> fless (last (topo_x (\<lambda>lon lat. [Fin 2500]) [Fin 0, Fin 1] [Fin 0, Fin 0])) (Fin 3)
   \<and> interp_call \<lparr>ip_x = [Fin 0, Fin (5 / 2)], ip_y = [Fin 100, Fin 200],
          ip_kind = call_linear, ip_bounds_error = False, ip_fill_value = Fin 200\<rparr> (Fin 3)
       = Inr (Fin 200)"
proof -
  let ?Ih = "\<lparr>ip_x = [Fin 0, Fin (5 / 2)], ip_y = [Fin 100, Fin 200], ip_kind = call_linear,
            ip_bounds_error = False, ip_fill_value = Fin 200\<rparr>"
  have a: "topo_Ih (\<lambda>lon lat. [Fin 2500]) (\<lambda>p lat. fneg p) [Fin 100, Fin 200]
       [Fin 0, Fin 1] [Fin 0, Fin 0] call_linear = Inr ?Ih"
    by (simp add: topo_Ih_def topo_x_def topo_h_def cumsum_def interp1d_def)
  have b: "fless (last (topo_x (\<lambda>lon lat. [Fin 2500]) [Fin 0, Fin 1] [Fin 0, Fin 0])) (Fin 3)"
    by (simp add: topo_x_def cumsum_def)
  have "interp_call ?Ih (Fin 3)
          = Inr (last (topo_h (\<lambda>p lat. fneg p) [Fin 100, Fin 200] [Fin 0, Fin 0]))"
    by (rule topo_Ih_flat_beyond_last[OF a b])
  then have "interp_call ?Ih (Fin 3) = Inr (Fin 200)" by (simp add: topo_h_def)
  with a b show ?thesis by simp
qed












section \<open>Lemmas on the fitted line\<close>

lemma all_fin_map: "list_all is_fin xs \<Longrightarrow> \<exists>rs. xs = map Fin rs"
proof (induction xs)
  case Nil
  then show ?case by simp
next
  case (Cons x xs)
  then obtain a rs where "x = Fin a" "xs = map Fin rs" by (auto simp: is_fin_conv)
  then have "x # xs = map Fin (a # rs)" by simp
  then show ?case by (rule exI)
qed

lemma searchsorted_knot:
  assumes "sorted_wrt (<) xr" "k < length xr"
  shows "searchsorted (map Fin xr) (Fin (xr ! k)) = k"
proof -
  have "takeWhile (\<lambda>a. np_lt a (Fin (xr ! k))) (map Fin xr) = take k (map Fin xr)"
  proof (rule takeWhile_eq_take_P_nth)
    fix i assume "i < k" "i < length (map Fin xr)"
    then show "np_lt (map Fin xr ! i) (Fin (xr ! k))"
      using assms by (simp add: np_lt_def sorted_wrt_nth_less)
  next
    assume "k < length (map Fin xr)"
    then show "\<not> np_lt (map Fin xr ! k) (Fin (xr ! k))" by (simp add: np_lt_def)
  qed
  then show ?thesis using assms(2) by (simp add: searchsorted_def)
qed

lemma linear_segment_fin:
  assumes "xr ! (i - 1) < xr ! i" "1 \<le> i" "i < length xr" "length yr = length xr"
  shows "is_fin (fadd (fmul (fdiv (fsub (map Fin yr ! i) (map Fin yr ! (i - 1)))
                                  (fsub (map Fin xr ! i) (map Fin xr ! (i - 1))))
                            (fsub (Fin q) (map Fin xr ! (i - 1))))
                      (map Fin yr ! (i - 1)))"
proof -
  have "i - 1 < length xr" using assms(3) by simp
  then show ?thesis using assms by (simp add: fsub_def)
qed

lemma call_linear_fin:
  assumes "sorted_wrt (<) xr" "length yr = length xr" "2 \<le> length xr"
  shows "is_fin (call_linear (map Fin xr) (map Fin yr) (Fin q))"
proof -
  define i where "i = min (max (searchsorted (map Fin xr) (Fin q)) 1) (length xr - 1)"
  have i: "1 \<le> i" "i < length xr" using assms(3) by (auto simp: i_def)
  then have "xr ! (i - 1) < xr ! i" using assms(1) by (simp add: sorted_wrt_nth_less)
  from linear_segment_fin[OF this i assms(2), of q] show ?thesis
    unfolding call_linear_def Let_def i_def by simp
qed

lemma call_linear_knot:
  assumes "sorted_wrt (<) xr" "length yr = length xr" "2 \<le> length xr" "k < length xr"
  shows "call_linear (map Fin xr) (map Fin yr) (Fin (xr ! k)) = Fin (yr ! k)"
proof (cases k)
  case 0
  have "xr ! 0 < xr ! 1" using assms(1,3) by (simp add: sorted_wrt_nth_less)
  then show ?thesis using 0 assms
    by (simp add: call_linear_def Let_def fsub_def searchsorted_knot)
next
  case (Suc k')
  have lt: "xr ! k' < xr ! Suc k'" using assms(1,4) Suc by (simp add: sorted_wrt_nth_less)
  then have ne: "xr ! Suc k' - xr ! k' \<noteq> 0" by simp
  have m: "min (max (Suc k') 1) (length xr - 1) = Suc k'" using Suc assms(4) by simp
  have ss: "searchsorted (map Fin xr) (Fin (xr ! Suc k')) = Suc k'"
    using searchsorted_knot[OF assms(1), of "Suc k'"] assms(4) Suc by simp
  have "call_linear (map Fin xr) (map Fin yr) (Fin (xr ! Suc k'))
          = Fin ((yr ! Suc k' - yr ! k') / (xr ! Suc k' - xr ! k') * (xr ! Suc k' - xr ! k') + yr ! k')"
    using Suc assms(2,4) ne unfolding call_linear_def Let_def ss m fsub_def
    by simp
  also have "\<dots> = Fin (yr ! Suc k')" using ne by simp
  finally show ?thesis using Suc by simp
qed

lemma extrap1d_fin:
  assumes "sorted_wrt (<) xr" "length yr = length xr" "2 \<le> length xr"
    and "ip_x f = map Fin xr" "ip_y f = map Fin yr" "ip_kind f = call_linear"
    and "ip_bounds_error f"
  shows "\<exists>v. extrap1d f (Fin q) = Inr (Fin v)"
proof -
  let ?n = "length xr"
  have lo: "xr ! 0 < xr ! 1" using assms(1,3) by (simp add: sorted_wrt_nth_less)
  have hi: "xr ! (?n - 2) < xr ! (?n - 1)" using assms(1,3) by (simp add: sorted_wrt_nth_less)
  have ne: "map Fin xr \<noteq> []" using assms(3) by (cases xr) simp_all
  have ix: "0 < ?n" "Suc 0 < ?n" "?n - Suc 0 < ?n" "?n - 2 < ?n" using assms(3) by linarith+
  from call_linear_fin[OF assms(1-3), of q] obtain c where
    c: "call_linear (map Fin xr) (map Fin yr) (Fin q) = Fin c" by (auto simp: is_fin_conv)
  show ?thesis
  proof (cases "q < xr ! 0")
    case True
    then show ?thesis using lo ix assms(2,4,5)
      by (simp add: extrap1d_def Let_def fsub_def)
  next
    case nb: False
    show ?thesis
    proof (cases "xr ! (?n - 1) < q")
      case True
      then show ?thesis using nb hi ix assms(2,4,5)
        by (simp add: extrap1d_def Let_def fsub_def)
    next
      case False
      then show ?thesis using nb ix assms(2,4-7) c ne
        by (simp add: extrap1d_def interp_call_def Let_def hd_conv_nth last_conv_nth)
    qed
  qed
qed

lemma extrap1d_knot:
  assumes "sorted_wrt (<) xr" "length yr = length xr" "2 \<le> length xr"
    and "ip_x f = map Fin xr" "ip_y f = map Fin yr" "ip_kind f = call_linear"
    and "k < length xr"
  shows "extrap1d f (Fin (xr ! k)) = Inr (Fin (yr ! k))"
proof -
  let ?n = "length xr"
  have ne: "map Fin xr \<noteq> []" using assms(3) by (cases xr) simp_all
  have "sorted xr" using assms(1) by (simp add: sorted_wrt_iff_nth_less sorted_iff_nth_mono_less less_imp_le)
  then have lo: "\<not> xr ! k < xr ! 0" and hi: "\<not> xr ! (?n - 1) < xr ! k"
    using assms(7) by (simp_all add: sorted_iff_nth_mono not_less)
  have ix: "0 < ?n" "?n - Suc 0 < ?n" using assms(3) by linarith+
  show ?thesis
    using lo hi ne ix assms(2,4-7) call_linear_knot[OF assms(1-3,7)]
    by (simp add: extrap1d_def interp_call_def Let_def hd_conv_nth last_conv_nth)
qed


lemma compress_Cons:
  "compress (x # xs) (b # bs) = (if b then x # compress xs bs else compress xs bs)"
  by (simp add: compress_def)


lemma set_compress: "set (compress xs flags) \<subseteq> set xs"
  by (auto simp: compress_def dest: set_zip_leftD)


lemma list_all_compress: "list_all P xs \<Longrightarrow> list_all P (compress xs flags)"
  using set_compress[of xs flags] by (auto simp: list_all_iff)

lemma compress_nth:
  assumes "length xs = length flags" "j < length flags" "flags ! j"
  shows "length (filter id (take j flags)) < length (compress xs flags)
         \<and> compress xs flags ! length (filter id (take j flags)) = xs ! j"
  using assms
proof (induction flags arbitrary: xs j)
  case Nil
  then show ?case by simp
next
  case (Cons b bs)
  then obtain x xs' where xs: "xs = x # xs'" by (cases xs) auto
  show ?case
  proof (cases j)
    case 0
    with Cons.prems xs show ?thesis by (simp add: compress_Cons)
  next
    case (Suc j')
    with Cons.prems xs have "length xs' = length bs" "j' < length bs" "bs ! j'" by simp_all
    from Cons.IH[OF this] show ?thesis using Suc xs by (simp add: compress_Cons)
  qed
qed

lemma mapM_total_all:
  assumes "\<And>x. x \<in> set xs \<Longrightarrow> \<exists>y. f x = Inr y \<and> P y"
  shows "\<exists>ys. mapM f xs = Inr ys \<and> list_all P ys"
  using assms
proof (induction xs)
  case Nil
  then show ?case by simp
next
  case (Cons a xs)
  then obtain y where "f a = Inr y" "P y" by auto
  moreover from Cons obtain ys where "mapM f xs = Inr ys" "list_all P ys" by auto
  ultimately show ?case by simp
qed

lemma valid_cells_fin: "list_all is_cell row \<Longrightarrow> list_all is_fin (filter (\<lambda>v. \<not> isnan v) row)"
  by (auto simp: list_all_iff is_cell_def)

text \<open>
  A line with at least two valid entries, finite cells and a finite axis whose
  coordinates at the valid entries increase strictly: the fitted curve is finite at every
  point of the axis and passes through the valid entries.
\<close>

lemma extrap_line_fit:
  assumes len: "length axis = length row"
    and ax: "list_all is_fin axis"
    and srt: "sorted_wrt fless (compress axis (map (\<lambda>v. \<not> isnan v) row))"
    and cells: "list_all is_cell row"
    and two: "2 \<le> length (filter (\<lambda>v. \<not> isnan v) row)"
  shows "\<exists>f out. interp1d (compress axis (map (\<lambda>v. \<not> isnan v) row))
                     (filter (\<lambda>v. \<not> isnan v) row) call_linear True NaN = Inr f
           \<and> mapM (extrap1d f) axis = Inr out
           \<and> extrap_line axis row = Inr out
           \<and> list_all is_fin out
           \<and> (\<forall>j<length row. \<not> isnan (row ! j) \<longrightarrow> out ! j = row ! j)"
proof -
  let ?mask = "map (\<lambda>v. \<not> isnan v) row"
  let ?x = "compress axis ?mask"
  let ?y = "filter (\<lambda>v. \<not> isnan v) row"
  have y: "compress row ?mask = ?y" by (rule compress_self)
  have lxy: "length ?x = length ?y"
    using len compress_length[of axis ?mask] compress_length[of row ?mask] y by simp
  obtain xr where xr: "?x = map Fin xr"
    using all_fin_map[OF list_all_compress[OF ax]] by blast
  obtain yr where yr: "?y = map Fin yr"
    using all_fin_map[OF valid_cells_fin[OF cells]] by blast
  have sx: "sorted_wrt (<) xr" using srt unfolding xr by (simp add: sorted_wrt_map)
  have l2: "length yr = length xr" "2 \<le> length xr"
    using lxy two unfolding xr yr by simp_all
  let ?f = "\<lparr>ip_x = ?x, ip_y = ?y, ip_kind = call_linear, ip_bounds_error = True,
             ip_fill_value = NaN\<rparr>"
  have ip: "interp1d ?x ?y call_linear True NaN = Inr ?f"
    using lxy two by (simp add: interp1d_def)
  have fx: "ip_x ?f = map Fin xr" "ip_y ?f = map Fin yr" "ip_kind ?f = call_linear"
    "ip_bounds_error ?f"
    using xr yr by simp_all
  have "\<exists>out. mapM (extrap1d ?f) axis = Inr out \<and> list_all is_fin out"
  proof (rule mapM_total_all)
    fix a assume "a \<in> set axis"
    then obtain q where "a = Fin q" using ax by (auto simp: list_all_iff is_fin_conv)
    then show "\<exists>y. extrap1d ?f a = Inr y \<and> is_fin y"
      using extrap1d_fin[OF sx l2 fx, of q] by auto
  qed
  then obtain out where out: "mapM (extrap1d ?f) axis = Inr out" "list_all is_fin out"
    by blast
  have T: "True \<in> set ?mask"
  proof -
    from two have "?y \<noteq> []" by auto
    then obtain v where "v \<in> set row" "\<not> isnan v" by (auto simp: filter_empty_conv)
    then show ?thesis by force
  qed
  have n1: "length (compress row ?mask) \<noteq> 1" using two y by simp
  have el: "extrap_line axis row = Inr out"
    using T n1 len ip out(1) y by (simp add: extrap_line_def Let_def bool_index_def)
  have knot: "out ! j = row ! j" if "j < length row" "\<not> isnan (row ! j)" for j
  proof -
    define k where "k = length (filter id (take j ?mask))"
    have mj: "j < length ?mask" "?mask ! j" using that by simp_all
    from compress_nth[OF _ mj, of axis] len
    have kx: "k < length ?x" "?x ! k = axis ! j" by (simp_all add: k_def)
    from compress_nth[OF _ mj, of row]
    have ky: "compress row ?mask ! k = row ! j" by (simp add: k_def)
    have kl: "k < length xr" using kx(1) unfolding xr by simp
    have "axis ! j = Fin (xr ! k)" using kx(2) kl unfolding xr by simp
    moreover have "row ! j = Fin (yr ! k)" using ky kl l2(1) unfolding y yr by simp
    moreover have "extrap1d ?f (axis ! j) = Inr (out ! j)"
      using mapM_nth[OF out(1), of j] that(1) len by simp
    ultimately show ?thesis using extrap1d_knot[OF sx l2 fx(1-3) kl] by simp
  qed
  from ip out el knot show ?thesis by blast
qed



section \<open>Claims on \<^verbatim>\<open>extrap_sec\<close>: the fitted lines\<close>

text \<open>
  C4. The claim says that the pass of a row with at least two valid values leaves no
  "no value" marker in that row. The row below has three valid values, two of them at
  stations with the same distance: the slope beyond the last valid station is \<open>0 / 0\<close>,
  and the entry of the fourth station stays the marker.
\<close>

theorem new_data1_keeps_nan:
  "new_data1 [[Fin 1, Fin 2, Fin 2, NaN]] [Fin 0, Fin 1, Fin 1, Fin 2]
     = Inr [[Fin 1, Fin 2, Fin 2, NaN]]"
  by (simp add: new_data1_def extrap_line_def compress_def bool_index_def np_repeat_def
      interp1d_def extrap1d_def interp_call_def call_linear_def searchsorted_def np_lt_def
      fsub_def)

text \<open>
  C4, amended. On a grid of finite cells and markers with finite axes, both passes
  return. A row with at least two valid values whose stations have strictly increasing
  distances is replaced, originally valid entries included, by the extrapolated
  interpolant through its valid entries evaluated at every distance, and no entry of it
  is a marker or infinite; likewise a column with at least two valid values at strictly
  increasing depths, against the depth axis.
\<close>

theorem fitted_lines_populated:
  assumes "0 < m" "grid m n data" "length dist' = n" "length depth = m"
    and "list_all is_fin dist'" "list_all is_fin depth"
    and "list_all (list_all is_cell) data"
  shows "\<exists>rows cols.
           new_data1 data dist' = Inr rows \<and> new_data2 data depth = Inr cols
           \<and> (\<forall>i<m. 2 \<le> length (filter (\<lambda>v. \<not> isnan v) (data ! i))
                    \<and> sorted_wrt fless (compress dist' (map (\<lambda>v. \<not> isnan v) (data ! i)))
                  \<longrightarrow> list_all is_fin (rows ! i)
                      \<and> (\<exists>f. interp1d (compress dist' (map (\<lambda>v. \<not> isnan v) (data ! i)))
                                 (filter (\<lambda>v. \<not> isnan v) (data ! i)) call_linear True NaN = Inr f
                             \<and> mapM (extrap1d f) dist' = Inr (rows ! i)))
           \<and> (\<forall>j<n. 2 \<le> length (filter (\<lambda>v. \<not> isnan v) (map (\<lambda>row. row ! j) data))
                    \<and> sorted_wrt fless
                         (compress depth (map (\<lambda>v. \<not> isnan v) (map (\<lambda>row. row ! j) data)))
                  \<longrightarrow> list_all is_fin (cols ! j)
                      \<and> (\<exists>f. interp1d
                                 (compress depth (map (\<lambda>v. \<not> isnan v) (map (\<lambda>row. row ! j) data)))
                                 (filter (\<lambda>v. \<not> isnan v) (map (\<lambda>row. row ! j) data))
                                 call_linear True NaN = Inr f
                             \<and> mapM (extrap1d f) depth = Inr (cols ! j)))"
proof -
  from extrap_sec_parts[OF assms(1-4), of "Fin 1" "Fin 0"] obtain rows cols where
    p: "new_data1 data dist' = Inr rows" "new_data2 data depth = Inr cols"
       "\<forall>i<m. extrap_line dist' (data ! i) = Inr (rows ! i)"
       "\<forall>j<n. extrap_line depth (map (\<lambda>row. row ! j) data) = Inr (cols ! j)"
    by blast
  have row: "list_all is_fin (rows ! i)
      \<and> (\<exists>f. interp1d (compress dist' (map (\<lambda>v. \<not> isnan v) (data ! i)))
                 (filter (\<lambda>v. \<not> isnan v) (data ! i)) call_linear True NaN = Inr f
             \<and> mapM (extrap1d f) dist' = Inr (rows ! i))"
    if "i < m" "2 \<le> length (filter (\<lambda>v. \<not> isnan v) (data ! i))"
      "sorted_wrt fless (compress dist' (map (\<lambda>v. \<not> isnan v) (data ! i)))" for i
  proof -
    have "length dist' = length (data ! i)" using assms(2,3) that(1) by (simp add: grid_nth)
    moreover have "list_all is_cell (data ! i)"
      using assms(2,7) that(1) by (simp add: list_all_length grid_length)
    ultimately show ?thesis
      using extrap_line_fit[OF _ assms(5) that(3) _ that(2)] p(3) that(1) by fastforce
  qed
  have col: "list_all is_fin (cols ! j)
      \<and> (\<exists>f. interp1d (compress depth (map (\<lambda>v. \<not> isnan v) (map (\<lambda>row. row ! j) data)))
                 (filter (\<lambda>v. \<not> isnan v) (map (\<lambda>row. row ! j) data)) call_linear True NaN = Inr f
             \<and> mapM (extrap1d f) depth = Inr (cols ! j))"
    if "j < n" "2 \<le> length (filter (\<lambda>v. \<not> isnan v) (map (\<lambda>row. row ! j) data))"
      "sorted_wrt fless (compress depth (map (\<lambda>v. \<not> isnan v) (map (\<lambda>row. row ! j) data)))"
    for j
  proof -
    have "length depth = length (map (\<lambda>row. row ! j) data)"
      using assms(2,4) by (simp add: grid_length)
    moreover have "list_all is_cell (map (\<lambda>row. row ! j) data)"
      using assms(2,7) that(1) by (auto simp: list_all_iff grid_def)
    ultimately show ?thesis
      using extrap_line_fit[OF _ assms(6) that(3) _ that(2)] p(4) that(1) by fastforce
  qed
  from p(1,2) row col show ?thesis by blast
qed

theorem fitted_lines_populated_witness:
  "grid 2 3 [[NaN, Fin 1, Fin 2], [NaN, Fin 3, Fin 6]]
   \<and> list_all (list_all is_cell) [[NaN, Fin 1, Fin 2], [NaN, Fin 3, Fin 6]]
   \<and> 2 \<le> length (filter (\<lambda>v. \<not> isnan v) ([[NaN, Fin 1, Fin 2], [NaN, Fin 3, Fin 6]] ! 0))
   \<and> sorted_wrt fless (compress [Fin 0, Fin 1, Fin 2]
         (map (\<lambda>v. \<not> isnan v) ([[NaN, Fin 1, Fin 2], [NaN, Fin 3, Fin 6]] ! 0)))
   \<and> new_data1 [[NaN, Fin 1, Fin 2], [NaN, Fin 3, Fin 6]] [Fin 0, Fin 1, Fin 2]
       = Inr [[Fin 0, Fin 1, Fin 2], [Fin 0, Fin 3, Fin 6]]
   \<and> new_data2 [[NaN, Fin 1, Fin 2], [NaN, Fin 3, Fin 6]] [Fin 0, Fin 1]
       = Inr [[NaN, NaN], [Fin 1, Fin 3], [Fin 2, Fin 6]]"
proof -
  let ?d = "[[NaN, Fin 1, Fin 2], [NaN, Fin 3, Fin 6]]"
  have g: "grid 2 3 ?d" by (simp add: grid_def)
  have c: "list_all (list_all is_cell) ?d" by (simp add: is_cell_def)
  have t: "2 \<le> length (filter (\<lambda>v. \<not> isnan v) (?d ! 0))" by simp
  have s: "sorted_wrt fless (compress [Fin 0, Fin 1, Fin 2] (map (\<lambda>v. \<not> isnan v) (?d ! 0)))"
    by (simp add: compress_def)
  from fitted_lines_populated[OF _ g _ _ _ _ c, of "[Fin 0, Fin 1, Fin 2]" "[Fin 0, Fin 1]"]
  have "\<exists>rows cols. new_data1 ?d [Fin 0, Fin 1, Fin 2] = Inr rows
          \<and> new_data2 ?d [Fin 0, Fin 1] = Inr cols"
    by auto
  moreover have "new_data1 ?d [Fin 0, Fin 1, Fin 2] = Inr [[Fin 0, Fin 1, Fin 2], [Fin 0, Fin 3, Fin 6]]"
    by (simp add: new_data1_def extrap_line_def compress_def bool_index_def np_repeat_def
      interp1d_def extrap1d_def interp_call_def call_linear_def searchsorted_def np_lt_def
      fsub_def)
  moreover have "new_data2 ?d [Fin 0, Fin 1] = Inr [[NaN, NaN], [Fin 1, Fin 3], [Fin 2, Fin 6]]"
    by (simp add: new_data2_def transpose_grid_def extrap_line_def compress_def bool_index_def
      np_repeat_def interp1d_def extrap1d_def interp_call_def call_linear_def searchsorted_def
      np_lt_def fsub_def)
  ultimately show ?thesis using g c t s by simp
qed

section \<open>The run with \<open>w1 = 1\<close> and \<open>w2 = 0\<close>\<close>







end
